theory Spec2Isabelle
  imports Complex_Main "HOL-Library.Word"
begin

section \<open>Engine constants\<close>

text \<open>
  The globals set by \<open>carp_init_globals\<close> in \<open>out/main.c\<close>. The C type \<open>int\<close> is
  modelled by \<open>int\<close>: every integer computed from these constants stays far below
  \<open>2 ^ 31\<close>. Values of type \<open>float\<close> are modelled by \<open>real\<close> and the float primitives of
  the Carp runtime (\<open>Float__PLUS_\<close>, \<open>Float__MUL_\<close>, \<open>Float__DIV_\<close>, \<open>Float_from_MINUS_int\<close>,
  \<open>Float_sin\<close>, \<open>Float_mod\<close>) by the exact real operations they round; accordingly the
  constant \<open>Float_pi = 3.1415926536f\<close> stands for the real number it approximates.
\<close>

definition sample_rate :: int where
  "sample_rate = 44100"

definition channels :: int where
  "channels = 2"

definition buf_frames :: int where
  "buf_frames = 512"

definition buf_size :: int where
  "buf_size = buf_frames * channels"

definition Float_pi :: real where
  "Float_pi = pi"

section \<open>Float arrays\<close>

text \<open>
  An \<open>Array\<close> of floats is modelled by the list of its \<open>len\<close> elements. \<open>Array_aset_BANG___float\<close>
  asserts \<open>n >= 0\<close> and \<open>n < a.len\<close> before it stores; a failed assertion aborts the program,
  which the model returns as an error.
\<close>

datatype error = AssertionFailed

definition Array_aset :: "real list \<Rightarrow> int \<Rightarrow> real \<Rightarrow> error + real list" where
  "Array_aset a n newValue =
     (if 0 \<le> n \<and> n < int (length a) then Inr (a[nat n := newValue]) else Inl AssertionFailed)"

section \<open>The sine oscillator\<close>

text \<open>
  \<open>Float_mod\<close> is C's \<open>fmodf\<close>: the remainder of \<open>x / y\<close> with the quotient truncated towards
  zero, so the result has the sign of \<open>x\<close>. The oscillator divides by \<open>2 * Float_pi\<close> only,
  never by 0.
\<close>

definition trunc_real :: "real \<Rightarrow> int" where
  "trunc_real r = (if 0 \<le> r then \<lfloor>r\<rfloor> else \<lceil>r\<rceil>)"

definition Float_mod :: "real \<Rightarrow> real \<Rightarrow> real" where
  "Float_mod x y = x - y * of_int (trunc_real (x / y))"

text \<open>
  The \<open>while\<close> loop of \<open>fill_MINUS_sine__Array__float_MUL_\<close>: frame \<open>i\<close> is computed once and
  stored at the two indices \<open>i * 2\<close> and \<open>i * 2 + 1\<close>.
\<close>

function fill_sine_loop :: "real \<Rightarrow> real \<Rightarrow> int \<Rightarrow> real list \<Rightarrow> error + real list" where
  "fill_sine_loop step phase i buf =
     (if i < buf_frames then
        (let s = sin (phase + step * of_int i) in
         case Array_aset buf (i * 2) s of
           Inl e \<Rightarrow> Inl e
         | Inr buf1 \<Rightarrow>
             (case Array_aset buf1 (i * 2 + 1) s of
                Inl e \<Rightarrow> Inl e
              | Inr buf2 \<Rightarrow> fill_sine_loop step phase (i + 1) buf2))
      else Inr buf)"
  by pat_completeness auto
termination
  by (relation "measure (\<lambda>(step, phase, i, buf). nat (buf_frames - i))") auto

definition fill_sine :: "real list \<Rightarrow> int \<Rightarrow> real \<Rightarrow> error + real list \<times> real" where
  "fill_sine buf freq phase =
     (let step = (2 * Float_pi) * (of_int freq / of_int sample_rate) in
      case fill_sine_loop step phase 0 buf of
        Inl e \<Rightarrow> Inl e
      | Inr buf' \<Rightarrow>
          Inr (buf', Float_mod (phase + step * of_int buf_frames) (2 * Float_pi)))"

text \<open>
  The calling pattern of the runtime loop, for any frequency: the same buffer is filled again
  and again, every call receives the phase the previous call returned, and the first
  \<open>buf_size\<close> floats of the buffer are what is played after each call. \<open>sine_ticks n\<close>
  returns the concatenation of the \<open>n\<close> played buffers, the buffer and the last phase.
\<close>

fun sine_ticks :: "nat \<Rightarrow> real list \<Rightarrow> int \<Rightarrow> real \<Rightarrow> error + real list \<times> real list \<times> real" where
  "sine_ticks 0 buf freq phase = Inr ([], buf, phase)"
| "sine_ticks (Suc n) buf freq phase =
     (case fill_sine buf freq phase of
        Inl e \<Rightarrow> Inl e
      | Inr (buf', phase') \<Rightarrow>
          (case sine_ticks n buf' freq phase' of
             Inl e \<Rightarrow> Inl e
           | Inr (out, b, p) \<Rightarrow> Inr (take (nat buf_size) buf' @ out, b, p)))"

section \<open>The SDL bindings of \<open>siren_audio.h\<close>\<close>

text \<open>
  SDL is outside the repository. A call into it is recorded as a value of \<open>sdl_call\<close>
  with the arguments it receives; what SDL answers (the device id, the number of queued
  bytes, the decoded WAV file) is an input of the model. A device id is a 32-bit value,
  whether it is held in an \<open>int\<close> or in an \<open>SDL_AudioDeviceID\<close>. The host is taken to be
  little-endian with a 64-bit \<open>size_t\<close>: \<open>AUDIO_F32SYS\<close> is \<open>AUDIO_F32LSB\<close>, and a \<open>Sint16\<close>
  is read low byte first.
\<close>

record SDL_AudioSpec =
  spec_freq :: int
  spec_format :: "16 word"
  spec_channels :: "8 word"
  spec_samples :: "16 word"

definition AUDIO_S16LSB :: "16 word" where
  "AUDIO_S16LSB = 0x8010"

definition AUDIO_F32SYS :: "16 word" where
  "AUDIO_F32SYS = 0x8120"

datatype sdl_call =
    SDL_OpenAudioDevice SDL_AudioSpec
  | SDL_PauseAudioDevice "32 word" int
  | SDL_QueueAudio "32 word" "real list" "32 word"
  | SDL_GetQueuedAudioSize "32 word" "32 word"
  | SDL_Delay "32 word"

text \<open>
  \<open>SDL_QueueAudio dev buf n\<close> is the call with the device, the floats that the pointer
  addresses and the byte count \<open>n\<close>; \<open>SDL_GetQueuedAudioSize dev a\<close> is the call together
  with SDL's answer \<open>a\<close>.
\<close>

definition siren_open_audio :: "int \<Rightarrow> int \<Rightarrow> int \<Rightarrow> sdl_call" where
  "siren_open_audio freq chans samples =
     SDL_OpenAudioDevice \<lparr>spec_freq = freq, spec_format = AUDIO_F32SYS,
       spec_channels = word_of_int chans, spec_samples = word_of_int samples\<rparr>"

text \<open>
  \<open>len * sizeof(float)\<close> is computed in \<open>size_t\<close> (64 bits, \<open>sizeof(float) = 4\<close>), the
  \<open>int\<close> operand being sign-extended, and the product is cut to \<open>Uint32\<close>.
\<close>

definition siren_queue_audio :: "32 word \<Rightarrow> real list \<Rightarrow> 32 word \<Rightarrow> sdl_call" where
  "siren_queue_audio dev buf len = SDL_QueueAudio dev buf (ucast ((scast len :: 64 word) * 4))"

text \<open>\<open>siren_queued_bytes\<close> casts SDL's \<open>Uint32\<close> answer to \<open>int\<close>.\<close>

definition siren_queued_bytes :: "32 word \<Rightarrow> int" where
  "siren_queued_bytes answer = sint answer"

subsection \<open>The WAV loader\<close>

text \<open>
  \<open>SDL_LoadWAV\<close> answers \<open>None\<close> (a null pointer) or the format of the file and its sample
  bytes, \<open>sdl_len\<close> being the number of bytes. \<open>alloc_ok\<close> tells whether \<open>malloc\<close> succeeds.
  \<open>Sint16_at b i\<close> is \<open>src[i]\<close>: the bytes \<open>2 * i\<close> and \<open>2 * i + 1\<close> read as one 16-bit
  value, low byte first. The loader returns the \<open>len\<close> floats of its \<open>Array\<close>.
\<close>

definition Sint16_at :: "8 word list \<Rightarrow> nat \<Rightarrow> 16 word" where
  "Sint16_at sdl_buf i = word_cat (sdl_buf ! (2 * i + 1)) (sdl_buf ! (2 * i))"

definition siren_load_wav ::
    "(string \<Rightarrow> (SDL_AudioSpec \<times> 8 word list) option) \<Rightarrow> bool \<Rightarrow> string \<Rightarrow> real list" where
  "siren_load_wav SDL_LoadWAV alloc_ok path =
     (case SDL_LoadWAV path of
        None \<Rightarrow> []
      | Some (spec, sdl_buf) \<Rightarrow>
          if spec_freq spec \<noteq> 44100 \<or> spec_channels spec \<noteq> 1 \<or> spec_format spec \<noteq> AUDIO_S16LSB
          then []
          else
            let n = length sdl_buf div 2 in
            if \<not> alloc_ok then []
            else map (\<lambda>i. real_of_int (sint (Sint16_at sdl_buf i)) / 32768) [0..<n])"

section \<open>The runtime loop of \<open>main\<close>\<close>

text \<open>
  \<open>main\<close> never returns, so the model runs it against a finite list of answers of
  \<open>SDL_GetQueuedAudioSize\<close> and stops when the list is used up: the result is the trace
  of calls made up to there. A run of the inner loop ends in one of three ways.
\<close>

datatype 'a run = Completed 'a | Cut | Failed error

definition Array_allocate_float :: "int \<Rightarrow> (nat \<Rightarrow> real) \<Rightarrow> real list" where
  "Array_allocate_float n mem = map mem [0..<nat n]"

text \<open>
  \<open>Array_allocate_float\<close> covers \<open>n \<ge> 0\<close>; \<open>main\<close> calls it with \<open>buf_size = 1024\<close> only. (For
  a negative \<open>n\<close> the C code would set \<open>len\<close> to \<open>n\<close> converted to \<open>size_t\<close> without checking the
  allocation, which the list does not represent.)
\<close>

text \<open>
  The inner \<open>while (_74)\<close>: fill, enqueue \<open>buf_size\<close> floats, ask the device again.
\<close>

fun enqueue_loop ::
    "32 word \<Rightarrow> 32 word list \<Rightarrow> bool \<Rightarrow> real \<Rightarrow> real list \<Rightarrow>
     sdl_call list \<times> (32 word list \<times> real \<times> real list) run" where
  "enqueue_loop dev answers c phase buf =
     (if c then
        (case fill_sine buf 440 phase of
           Inl e \<Rightarrow> ([], Failed e)
         | Inr (buf', phase') \<Rightarrow>
             (case answers of
                [] \<Rightarrow> ([siren_queue_audio dev buf' (word_of_int buf_size)], Cut)
              | a # rest \<Rightarrow>
                  (case enqueue_loop dev rest (siren_queued_bytes a < buf_size * 4 * 4) phase' buf' of
                     (t, r) \<Rightarrow>
                       (siren_queue_audio dev buf' (word_of_int buf_size)
                          # SDL_GetQueuedAudioSize dev a # t, r))))
      else ([], Completed (answers, phase, buf)))"

text \<open>The outer \<open>while (true)\<close>: ask the device, run the inner loop, sleep.\<close>

function main_loop :: "32 word \<Rightarrow> 32 word list \<Rightarrow> real \<Rightarrow> real list \<Rightarrow> sdl_call list" where
  "main_loop dev [] phase buf = []"
| "main_loop dev (a # rest) phase buf =
     (case enqueue_loop dev rest (siren_queued_bytes a < buf_size * 4 * 4) phase buf of
        (t, Completed (rest', phase', buf')) \<Rightarrow>
          SDL_GetQueuedAudioSize dev a # t @ SDL_Delay 1 # main_loop dev rest' phase' buf'
      | (t, Cut) \<Rightarrow> SDL_GetQueuedAudioSize dev a # t
      | (t, Failed e) \<Rightarrow> SDL_GetQueuedAudioSize dev a # t)"
  by pat_completeness auto
termination
proof (relation "measure (\<lambda>(dev, answers, phase, buf). length answers)")
  show "wf (measure (\<lambda>(dev, answers, phase, buf). length answers))"
    by simp
next
  fix dev :: "32 word" and a rest phase buf t y z rest' w phase' buf'
  have shorter: "length r' \<le> length r"
    if "enqueue_loop d r c p b = (tr, Completed (r', p', b'))" for d r c p b tr r' p' b'
    using that
  proof (induction d r c p b arbitrary: tr rule: enqueue_loop.induct)
    case (1 d r c p b)
    show ?case
    proof (cases c)
      case False
      with "1.prems" show ?thesis by simp
    next
      case True
      with "1.prems" obtain b1 p1 where f: "fill_sine b 440 p = Inr (b1, p1)"
        by (auto split: sum.splits)
      with True "1.prems" obtain a0 r0 where r: "r = a0 # r0"
        by (cases r) auto
      obtain t0 res where e: "enqueue_loop d r0 (siren_queued_bytes a0 < buf_size * 4 * 4) p1 b1 = (t0, res)"
        by (cases "enqueue_loop d r0 (siren_queued_bytes a0 < buf_size * 4 * 4) p1 b1") auto
      with True f r "1.prems" have "res = Completed (r', p', b')"
        by simp
      with "1.IH"[OF True f refl r] e have "length r' \<le> length r0"
        by simp
      with r show ?thesis by simp
    qed
  qed
  assume "(t, y) = enqueue_loop dev rest (siren_queued_bytes a < buf_size * 4 * 4) phase buf"
    and "y = Completed z" and "(rest', w) = z" and "(phase', buf') = w"
  then have "enqueue_loop dev rest (siren_queued_bytes a < buf_size * 4 * 4) phase buf
      = (t, Completed (rest', phase', buf'))"
    by simp
  from shorter[OF this]
  show "((dev, rest', phase', buf'), (dev, a # rest, phase, buf))
      \<in> measure (\<lambda>(dev, answers, phase, buf). length answers)"
    by simp
qed

text \<open>
  \<open>main\<close>: open the device (SDL answers \<open>dev\<close>), allocate the buffer (\<open>mem\<close> is what the
  fresh memory holds), start at phase \<open>0\<close>, unpause, loop.
\<close>

definition main :: "32 word \<Rightarrow> (nat \<Rightarrow> real) \<Rightarrow> 32 word list \<Rightarrow> sdl_call list" where
  "main dev mem answers =
     (let buf = Array_allocate_float buf_size mem;
          phase = 0
      in siren_open_audio sample_rate channels buf_frames
           # SDL_PauseAudioDevice dev 0
           # main_loop dev answers phase buf)"

section \<open>Reading a trace\<close>

text \<open>
  The host device as the specification describes it: a sink that holds a number of queued
  bytes, takes what is enqueued and otherwise only drains. \<open>sink_consistent q t\<close> holds
  when the answers in \<open>t\<close> can come from such a sink that holds \<open>q\<close> bytes at the start;
  \<open>queued_at_delay q t\<close> lists the bytes it holds at each \<open>SDL_Delay\<close>.
\<close>

fun sink_consistent :: "nat \<Rightarrow> sdl_call list \<Rightarrow> bool" where
  "sink_consistent q [] = True"
| "sink_consistent q (SDL_QueueAudio dev b n # t) = sink_consistent (q + unat n) t"
| "sink_consistent q (SDL_GetQueuedAudioSize dev a # t) = (unat a \<le> q \<and> sink_consistent (unat a) t)"
| "sink_consistent q (c # t) = sink_consistent q t"

fun queued_at_delay :: "nat \<Rightarrow> sdl_call list \<Rightarrow> nat list" where
  "queued_at_delay q [] = []"
| "queued_at_delay q (SDL_QueueAudio dev b n # t) = queued_at_delay (q + unat n) t"
| "queued_at_delay q (SDL_GetQueuedAudioSize dev a # t) = queued_at_delay (unat a) t"
| "queued_at_delay q (SDL_Delay ms # t) = q # queued_at_delay q t"
| "queued_at_delay q (c # t) = queued_at_delay q t"

section \<open>The two loops unrolled\<close>

text \<open>
  With a buffer of \<open>buf_size\<close> floats every fill overwrites the whole buffer, so the trace
  depends on the phase only. \<open>rounds\<close> is the trace written as one recursion over the
  answers; it is shown below to be what \<open>main_loop\<close> produces.
\<close>

definition sine_buffer :: "real \<Rightarrow> real list" where
  "sine_buffer phase = map (\<lambda>j. sin (phase + 2 * pi * (440 / 44100) * real (j div 2))) [0..<1024]"

definition next_phase :: "real \<Rightarrow> real" where
  "next_phase phase = Float_mod (phase + 2 * pi * (440 / 44100) * 512) (2 * pi)"

fun rounds :: "32 word \<Rightarrow> 32 word list \<Rightarrow> real \<Rightarrow> sdl_call list" where
  "rounds dev [] phase = []"
| "rounds dev (a # rest) phase =
     (if siren_queued_bytes a < 16384
      then SDL_GetQueuedAudioSize dev a # SDL_QueueAudio dev (sine_buffer phase) 4096
             # rounds dev rest (next_phase phase)
      else SDL_GetQueuedAudioSize dev a # SDL_Delay 1 # rounds dev rest phase)"

declare fill_sine_loop.simps [simp del]
declare enqueue_loop.simps [simp del]
declare main_loop.simps(2) [simp del]
declare rounds.simps(2) [simp del]

section \<open>The oscillator: one call\<close>

text \<open>The loop started at frame \<open>i\<close> rewrites the indices from \<open>2 * i\<close> up to 1023 and no other.\<close>

lemma fill_sine_loop_ok:
  "0 \<le> i \<Longrightarrow> i \<le> 512 \<Longrightarrow> 1024 \<le> length buf \<Longrightarrow>
   \<exists>buf'. fill_sine_loop step phase i buf = Inr buf' \<and> length buf' = length buf \<and>
     (\<forall>j < length buf. buf' ! j =
        (if 2 * nat i \<le> j \<and> j < 1024 then sin (phase + step * of_int (int (j div 2))) else buf ! j))"
proof (induction step phase i buf rule: fill_sine_loop.induct)
  case (1 step phase i buf)
  note i0 = \<open>0 \<le> i\<close> and ile = \<open>i \<le> 512\<close> and len = \<open>1024 \<le> length buf\<close>
  show ?case
  proof (cases "i < buf_frames")
    case False
    with ile have "i = 512" by (simp add: buf_frames_def)
    then show ?thesis using False
      by (subst fill_sine_loop.simps) (simp add: buf_frames_def)
  next
    case True
    define k where "k = nat i"
    define s where "s = sin (phase + step * of_int i)"
    define buf1 where "buf1 = buf[2 * k := s]"
    define buf2 where "buf2 = buf1[2 * k + 1 := s]"
    have i: "i = int k" "k < 512" using True i0 by (simp_all add: buf_frames_def k_def)
    have a1: "Array_aset buf (i * 2) s = Inr buf1"
      using len i by (simp add: Array_aset_def buf1_def nat_mult_distrib mult.commute)
    have a2: "Array_aset buf1 (i * 2 + 1) s = Inr buf2"
      using len i by (simp add: Array_aset_def buf1_def buf2_def nat_add_distrib nat_mult_distrib mult.commute)
    have len2: "length buf2 = length buf" by (simp add: buf1_def buf2_def)
    have "\<exists>buf'. fill_sine_loop step phase (i + 1) buf2 = Inr buf' \<and> length buf' = length buf2 \<and>
     (\<forall>j < length buf2. buf' ! j =
        (if 2 * nat (i + 1) \<le> j \<and> j < 1024 then sin (phase + step * of_int (int (j div 2))) else buf2 ! j))"
      using "1.IH"[OF True s_def a1 a2] i len len2 by simp
    then obtain buf' where r: "fill_sine_loop step phase (i + 1) buf2 = Inr buf'"
      and l: "length buf' = length buf"
      and c: "\<And>j. j < length buf \<Longrightarrow> buf' ! j =
        (if 2 * k + 2 \<le> j \<and> j < 1024 then sin (phase + step * of_int (int (j div 2))) else buf2 ! j)"
      using len2 i by (auto simp: nat_add_distrib)
    have eq: "fill_sine_loop step phase i buf = Inr buf'"
      using True a1 a2 r by (subst fill_sine_loop.simps) (simp add: s_def)
    have "buf' ! j =
        (if 2 * k \<le> j \<and> j < 1024 then sin (phase + step * of_int (int (j div 2))) else buf ! j)"
      if j: "j < length buf" for j
    proof -
      have lt: "2 * k + 1 < length buf" using i len by simp
      consider (a) "j = 2 * k" | (b) "j = 2 * k + 1" | (c) "j < 2 * k" | (d) "2 * k + 2 \<le> j" by linarith
      then show ?thesis
      proof cases
        case a
        then have "j div 2 = k" "j < 1024" using i by simp_all
        moreover have "buf2 ! j = s" using a lt by (simp add: buf2_def buf1_def)
        ultimately show ?thesis using c[OF j] a i by (simp add: s_def)
      next
        case b
        then have "j div 2 = k" "j < 1024" using i by simp_all
        moreover have "buf2 ! j = s" using b lt by (simp add: buf2_def buf1_def)
        ultimately show ?thesis using c[OF j] b i by (simp add: s_def)
      next
        case c
        then have "buf2 ! j = buf ! j" by (simp add: buf2_def buf1_def)
        then show ?thesis using c \<open>\<And>j. j < length buf \<Longrightarrow> buf' ! j = _\<close>[OF j] by simp
      next
        case d
        then have "buf2 ! j = buf ! j" by (simp add: buf2_def buf1_def)
        then show ?thesis using d  \<open>\<And>j. j < length buf \<Longrightarrow> buf' ! j = _\<close>[OF j] by simp
      qed
    qed
    with eq l show ?thesis by (simp add: k_def)
  qed
qed


lemma fill_sine_loop_closed:
  assumes "1024 \<le> length buf"
  shows "fill_sine_loop step phase 0 buf =
    Inr (map (\<lambda>j. sin (phase + step * real (j div 2))) [0..<1024] @ drop 1024 buf)"
proof -
  from fill_sine_loop_ok[of 0 buf step phase] assms
  obtain buf' where r: "fill_sine_loop step phase 0 buf = Inr buf'"
    and l: "length buf' = length buf"
    and c: "\<And>j. j < length buf \<Longrightarrow> buf' ! j =
        (if j < 1024 then sin (phase + step * real (j div 2)) else buf ! j)"
    by auto
  have "buf' = map (\<lambda>j. sin (phase + step * real (j div 2))) [0..<1024] @ drop 1024 buf"
  proof (rule nth_equalityI)
    show "length buf' = length (map (\<lambda>j. sin (phase + step * real (j div 2))) [0..<1024] @ drop 1024 buf)"
      using l assms by simp
  next
    fix j assume "j < length buf'"
    then have j: "j < length buf" using l by simp
    show "buf' ! j = (map (\<lambda>j. sin (phase + step * real (j div 2))) [0..<1024] @ drop 1024 buf) ! j"
    proof (cases "j < 1024")
      case True
      then show ?thesis using c[OF j] by (simp add: nth_append)
    next
      case False
      then show ?thesis using c[OF j] assms by (simp add: nth_append)
    qed
  qed
  with r show ?thesis by simp
qed

lemma fill_sine_loop_short:
  "0 \<le> i \<Longrightarrow> i < 512 \<Longrightarrow> length buf < 1024 \<Longrightarrow>
   fill_sine_loop step phase i buf = Inl AssertionFailed"
proof (induction step phase i buf rule: fill_sine_loop.induct)
  case (1 step phase i buf)
  note i0 = \<open>0 \<le> i\<close> and ilt = \<open>i < 512\<close> and len = \<open>length buf < 1024\<close>
  have c: "i < buf_frames" using ilt by (simp add: buf_frames_def)
  define s where "s = sin (phase + step * of_int i)"
  show ?case
  proof (cases "i * 2 + 1 < int (length buf)")
    case False
    then show ?thesis using c i0
      by (subst fill_sine_loop.simps) (simp add: Array_aset_def Let_def)
  next
    case True
    define buf1 where "buf1 = buf[nat (i * 2) := s]"
    define buf2 where "buf2 = buf1[nat (i * 2 + 1) := s]"
    have a1: "Array_aset buf (i * 2) s = Inr buf1"
      using True i0 by (simp add: Array_aset_def buf1_def)
    have a2: "Array_aset buf1 (i * 2 + 1) s = Inr buf2"
      using True i0 by (simp add: Array_aset_def buf1_def buf2_def)
    have "i + 1 < 512" using True len by simp
    moreover have "length buf2 < 1024" using len by (simp add: buf1_def buf2_def)
    ultimately have "fill_sine_loop step phase (i + 1) buf2 = Inl AssertionFailed"
      using "1.IH"[OF c s_def a1 a2] i0 by simp
    then show ?thesis using c a1 a2
      by (subst fill_sine_loop.simps) (simp add: s_def)
  qed
qed

lemma fill_sine_eq:
  "fill_sine buf freq phase =
     (if length buf < 1024 then Inl AssertionFailed
      else Inr (map (\<lambda>j. sin (phase + 2 * pi * (real_of_int freq / 44100) * real (j div 2))) [0..<1024]
                  @ drop 1024 buf,
                Float_mod (phase + 2 * pi * (real_of_int freq / 44100) * 512) (2 * pi)))"
proof -
  define step where "step = 2 * pi * (real_of_int freq / 44100)"
  have f: "fill_sine buf freq phase =
     (case fill_sine_loop step phase 0 buf of
        Inl e \<Rightarrow> Inl e
      | Inr buf' \<Rightarrow> Inr (buf', Float_mod (phase + step * 512) (2 * pi)))"
    by (simp add: fill_sine_def Float_pi_def sample_rate_def buf_frames_def step_def
        split: sum.split)
  show ?thesis
  proof (cases "length buf < 1024")
    case True
    then show ?thesis
      unfolding f by (simp add: fill_sine_loop_short)
  next
    case False
    then show ?thesis
      unfolding f by (simp add: fill_sine_loop_closed step_def)
  qed
qed

text \<open>The returned phase: \<open>Float_mod\<close> removes a whole number of periods of the sine.\<close>

lemma sin_shift_int: "sin (z - 2 * pi * real_of_int k) = sin (z::real)"
  by (simp add: sin_diff)

lemma sin_Float_mod: "sin (Float_mod x (2 * pi) + y) = sin (x + y)"
proof -
  have "Float_mod x (2 * pi) + y = (x + y) - 2 * pi * real_of_int (trunc_real (x / (2 * pi)))"
    by (simp add: Float_mod_def)
  then show ?thesis by (simp only: sin_shift_int)
qed

lemma Float_mod_nonneg:
  assumes "0 \<le> x"
  shows "Float_mod x (2 * pi) = x - 2 * pi * real_of_int \<lfloor>x / (2 * pi)\<rfloor>"
    and "0 \<le> Float_mod x (2 * pi)" and "Float_mod x (2 * pi) < 2 * pi"
proof -
  let ?q = "x / (2 * pi)"
  have q: "0 \<le> ?q" using assms by simp
  then show e: "Float_mod x (2 * pi) = x - 2 * pi * real_of_int \<lfloor>?q\<rfloor>"
    by (simp add: Float_mod_def trunc_real_def)
  have "real_of_int \<lfloor>?q\<rfloor> \<le> ?q" by (rule of_int_floor_le)
  then have "2 * pi * real_of_int \<lfloor>?q\<rfloor> \<le> 2 * pi * ?q"
    by (intro mult_left_mono) simp_all
  then show "0 \<le> Float_mod x (2 * pi)" unfolding e by simp
  have "?q < real_of_int \<lfloor>?q\<rfloor> + 1" by linarith
  then have "2 * pi * ?q < 2 * pi * (real_of_int \<lfloor>?q\<rfloor> + 1)"
    by (intro mult_strict_left_mono) simp_all
  then show "Float_mod x (2 * pi) < 2 * pi" unfolding e by (simp add: algebra_simps)
qed

lemma Float_mod_id:
  assumes "0 \<le> x" "x < 2 * pi"
  shows "Float_mod x (2 * pi) = x"
proof -
  have "0 \<le> x / (2 * pi)" "x / (2 * pi) < 1" using assms by simp_all
  then have "\<lfloor>x / (2 * pi)\<rfloor> = 0" by linarith
  then show ?thesis using assms by (simp add: Float_mod_def trunc_real_def)
qed

lemma sin_step_bound: "\<bar>sin (a + d) - sin a\<bar> \<le> \<bar>d\<bar>" for a d :: real
proof -
  have h: "(a + d - a) / 2 = d / 2" "(a + d + a) / 2 = a + d / 2"
    by (simp_all add: field_simps)
  have "sin (a + d) - sin a = 2 * sin (d / 2) * cos (a + d / 2)"
    unfolding sin_diff_sin[of "a + d" a] h ..
  then have "\<bar>sin (a + d) - sin a\<bar> = 2 * \<bar>sin (d / 2)\<bar> * \<bar>cos (a + d / 2)\<bar>"
    by (simp add: abs_mult)
  also have "\<dots> \<le> 2 * \<bar>d / 2\<bar> * 1"
    by (intro mult_mono abs_sin_x_le_abs_x) simp_all
  finally show ?thesis by simp
qed

section \<open>Claims on the sine oscillator\<close>

text \<open>
  C1, as stated, fails: the claim ranges over every buffer, and on a buffer of \<open>BUF_FRAMES = 512\<close>
  floats the call stores frame 256 at index 512, where the assertion of \<open>Array_aset\<close> fails,
  so nothing is returned.
\<close>

theorem fill_sine_short_buffer_aborts:
  "fill_sine (replicate 512 0) 440 0 = Inl AssertionFailed"
  by (simp add: fill_sine_eq)

text \<open>
  C1, amended: for every frequency, every incoming phase and every buffer of at least
  \<open>BUF_SIZE = 1024\<close> floats, the fill returns, frame \<open>i < 512\<close> of the result (the two
  indices \<open>2 * i\<close> and \<open>2 * i + 1\<close>) holds \<open>sin (phase + i * \<Delta>)\<close> with
  \<open>\<Delta> = 2 * pi * freq / 44100\<close>, and the returned phase is the \<open>fmod\<close> remainder of
  \<open>phase + 512 * \<Delta>\<close> by \<open>2 * pi\<close>; for a frequency and a phase that are not negative this
  is \<open>(phase + 512 * \<Delta>) mod 2 * pi\<close>, a value in \<open>[0, 2 * pi)\<close>.
\<close>

theorem fill_sine_frames:
  assumes "1024 \<le> length buf"
  shows "\<exists>buf' phase'.
     fill_sine buf freq phase = Inr (buf', phase') \<and>
     (\<forall>i<512. buf' ! (2 * i) = sin (phase + real i * (2 * pi * real_of_int freq / 44100)) \<and>
              buf' ! (2 * i + 1) = sin (phase + real i * (2 * pi * real_of_int freq / 44100))) \<and>
     phase' = Float_mod (phase + 512 * (2 * pi * real_of_int freq / 44100)) (2 * pi) \<and>
     (0 \<le> freq \<and> 0 \<le> phase \<longrightarrow>
        phase' = phase + 512 * (2 * pi * real_of_int freq / 44100)
                 - 2 * pi * real_of_int \<lfloor>(phase + 512 * (2 * pi * real_of_int freq / 44100)) / (2 * pi)\<rfloor> \<and>
        0 \<le> phase' \<and> phase' < 2 * pi)"
proof -
  define d where "d = 2 * pi * real_of_int freq / 44100"
  define out where "out = map (\<lambda>j. sin (phase + 2 * pi * (real_of_int freq / 44100) * real (j div 2))) [0..<1024]
                  @ drop 1024 buf"
  define p where "p = Float_mod (phase + 512 * d) (2 * pi)"
  have r: "fill_sine buf freq phase = Inr (out, p)"
    using assms by (simp add: fill_sine_eq out_def p_def d_def algebra_simps)
  have fr: "out ! (2 * i) = sin (phase + real i * d) \<and> out ! (2 * i + 1) = sin (phase + real i * d)"
    if "i < 512" for i
  proof -
    have "2 * i < 1024" "2 * i + 1 < 1024" "(2 * i) div 2 = i" "(2 * i + 1) div 2 = i"
      using that by simp_all
    then show ?thesis
      by (simp add: out_def nth_append d_def algebra_simps del: upt_Suc)
  qed
  have nn: "0 \<le> phase + 512 * d" if "0 \<le> freq" "0 \<le> phase"
    using that by (simp add: d_def)
  show ?thesis
    using r fr Float_mod_nonneg[OF nn] unfolding p_def d_def by blast
qed

text \<open>C1, amended, at 440 Hz on a buffer of 1024 zeros.\<close>

theorem fill_sine_frames_witness:
  "1024 \<le> length (replicate 1024 (0::real)) \<and>
   (\<exists>buf' phase'. fill_sine (replicate 1024 0) 440 0 = Inr (buf', phase') \<and>
      buf' ! 0 = 0 \<and> buf' ! 1 = 0 \<and> 0 \<le> phase' \<and> phase' < 2 * pi)"
proof -
  have h: "1024 \<le> length (replicate 1024 (0::real))" by simp
  from fill_sine_frames[OF h, of 440 0]
  obtain buf' phase' where r: "fill_sine (replicate 1024 0) 440 0 = Inr (buf', phase')"
    and f: "\<forall>i<512. buf' ! (2 * i) = sin (0 + real i * (2 * pi * real_of_int 440 / 44100)) \<and>
              buf' ! (2 * i + 1) = sin (0 + real i * (2 * pi * real_of_int 440 / 44100))"
    and b: "(0::int) \<le> 440 \<and> (0::real) \<le> 0 \<longrightarrow> 0 \<le> phase' \<and> phase' < 2 * pi"
    by blast
  from f have "buf' ! (2 * 0) = 0 \<and> buf' ! (2 * 0 + 1) = 0" by fastforce
  with r b h show ?thesis by simp
qed

text \<open>
  C2, as stated, fails: on a buffer of 1024 twos, with frequency and phase 0, the element
  at index 512 (and every other up to 1023) is overwritten with \<open>sin 0 = 0\<close>.
\<close>

theorem fill_sine_writes_past_buf_frames:
  "fill_sine (replicate 1024 2) 0 0 = Inr (replicate 1024 0, 0)
   \<and> replicate 1024 (2::real) ! 512 \<noteq> replicate 1024 (0::real) ! 512"
proof -
  have "map (\<lambda>j. 0::real) [0..<1024] = replicate 1024 0"
    by (simp add: map_replicate_const del: upt_Suc)
  moreover have "Float_mod 0 (2 * pi) = 0" by (simp add: Float_mod_id)
  ultimately show ?thesis by (simp add: fill_sine_eq del: upt_Suc)
qed

text \<open>
  C2, amended: the fill treats its buffer as interleaved stereo of \<open>BUF_SIZE = 1024\<close> floats.
  On a buffer of at least 1024 floats it replaces exactly the elements at the indices
  \<open>0..1023\<close>, index \<open>j\<close> receiving the sample of frame \<open>j div 2\<close>, and leaves every element at
  an index from 1024 on unchanged.
\<close>

theorem fill_sine_footprint:
  assumes "1024 \<le> length buf"
  shows "\<exists>phase'. fill_sine buf freq phase =
     Inr (map (\<lambda>j. sin (phase + real (j div 2) * (2 * pi * real_of_int freq / 44100))) [0..<1024]
            @ drop 1024 buf, phase')"
  using assms by (simp add: fill_sine_eq algebra_simps del: upt_Suc)

text \<open>C2, amended, on a buffer of 1026 sevens: the last two stay.\<close>

theorem fill_sine_footprint_witness:
  "1024 \<le> length (replicate 1026 (7::real)) \<and>
   (\<exists>phase'. fill_sine (replicate 1026 7) 0 0 = Inr (replicate 1024 0 @ [7, 7], phase'))"
proof -
  have h: "1024 \<le> length (replicate 1026 (7::real))" by simp
  have m: "map (\<lambda>j. 0::real) [0..<1024] = replicate 1024 0"
    by (simp add: map_replicate_const del: upt_Suc)
  have d: "drop 1024 (replicate 1026 (7::real)) = [7, 7]"
    by (simp add: numeral_2_eq_2)
  from fill_sine_footprint[OF h, of 0 0] m d h show ?thesis
    by (simp del: upt_Suc)
qed

text \<open>
  C10, as stated, fails: the claim sets no condition on the buffer, and on a buffer of
  \<open>BUF_FRAMES = 512\<close> floats the fill at frequency 0 and phase 1 aborts on the store at index
  512 and returns no phase.
\<close>

theorem fill_sine_zero_freq_short_buffer_aborts:
  "fill_sine (replicate 512 0) 0 1 = Inl AssertionFailed \<and> (0::real) \<le> 1 \<and> 1 < 2 * pi"
  using pi_ge_two by (simp add: fill_sine_eq)

text \<open>
  C10, amended: at frequency 0, for a phase in \<open>[0, 2 * pi)\<close> and a buffer of at least
  \<open>BUF_SIZE = 1024\<close> floats, the fill writes \<open>sin phase\<close> at every index it touches
  (\<open>0..1023\<close>) and returns the phase unchanged.
\<close>

theorem fill_sine_zero_freq:
  assumes "1024 \<le> length buf" and "0 \<le> phase" and "phase < 2 * pi"
  shows "fill_sine buf 0 phase = Inr (replicate 1024 (sin phase) @ drop 1024 buf, phase)"
proof -
  have "map (\<lambda>j. sin phase) [0..<1024] = replicate 1024 (sin phase)"
    by (simp add: map_replicate_const del: upt_Suc)
  then show ?thesis
    using assms by (simp add: fill_sine_eq Float_mod_id del: upt_Suc)
qed

text \<open>C10, amended, at phase 1 on a buffer of 1024 zeros.\<close>

theorem fill_sine_zero_freq_witness:
  "1024 \<le> length (replicate 1024 (0::real)) \<and> (0::real) \<le> 1 \<and> 1 < 2 * pi \<and>
   fill_sine (replicate 1024 0) 0 1 = Inr (replicate 1024 (sin 1), 1)"
proof -
  have h: "1024 \<le> length (replicate 1024 (0::real))" by simp
  have p: "1 < 2 * pi" using pi_ge_two by simp
  from fill_sine_zero_freq[OF h _ p] h p show ?thesis by simp
qed

section \<open>Claims on the SDL bindings\<close>

text \<open>Cut to 32 bits, the product computed in 64 bits is the 32-bit product.\<close>

lemma queue_len_word: "(ucast ((scast (len :: 32 word) :: 64 word) * 4) :: 32 word) = len * 4"
proof -
  have dv: "(2::int) ^ LENGTH(32) dvd 2 ^ 64"
    by (rule le_imp_power_dvd) simp
  have a: "(ucast ((scast len :: 64 word) * 4) :: 32 word) = word_of_int (uint ((scast len :: 64 word) * 4))"
    by (rule ucast_eq)
  have s: "uint (scast len :: 64 word) = sint len mod 2 ^ 64"
    by (simp only: scast_eq uint_word_of_int take_bit_eq_mod) simp
  have b: "uint ((scast len :: 64 word) * 4) = (sint len * 4) mod 2 ^ 64"
    using mod_mult_left_eq[of "sint len" "2 ^ 64" 4]
    by (simp add: uint_word_ariths s)
  have c: "(word_of_int ((sint len * 4) mod 2 ^ 64) :: 32 word) = word_of_int (sint len * 4)"
    by (simp only: word_of_int_eq_iff take_bit_eq_mod mod_mod_cancel[OF dv])
  have d: "(word_of_int (sint len * 4) :: 32 word) = len * 4"
    by (simp add: word_of_int_hom_syms del: of_int_mult)
  show ?thesis unfolding a b c d ..
qed

lemma siren_queue_audio_eq: "siren_queue_audio dev buf len = SDL_QueueAudio dev buf (len * 4)"
  by (simp only: siren_queue_audio_def queue_len_word)

text \<open>
  C9, as stated, fails: for the float count \<open>2 ^ 30 = 1073741824\<close> the byte count
  \<open>4 * 2 ^ 30 = 2 ^ 32\<close> is cut to \<open>Uint32\<close>, and \<open>SDL_QueueAudio\<close> is asked to enqueue 0 bytes.
\<close>

theorem siren_queue_audio_wraps:
  "siren_queue_audio 1 (replicate 1073741824 0) 1073741824 = SDL_QueueAudio 1 (replicate 1073741824 0) 0
   \<and> (0::int) \<le> sint (1073741824 :: 32 word) \<and> uint (0 :: 32 word) \<noteq> 4 * sint (1073741824 :: 32 word)"
  by (simp add: siren_queue_audio_eq)

text \<open>
  C9, amended: for every device, buffer and float count \<open>len\<close>, \<open>siren_queue_audio\<close> passes
  \<open>SDL_QueueAudio\<close> the byte count \<open>4 * len mod 2 ^ 32\<close>; for \<open>0 \<le> len < 2 ^ 30\<close> this is
  exactly \<open>4 * len\<close>. The conversion from floats to bytes happens inside the binding.
\<close>

theorem siren_queue_audio_bytes:
  "\<exists>n. siren_queue_audio dev buf len = SDL_QueueAudio dev buf n \<and>
       uint n = (4 * sint len) mod 2 ^ 32 \<and>
       (0 \<le> sint len \<and> sint len < 2 ^ 30 \<longrightarrow> uint n = 4 * sint len)"
proof -
  have "uint (len * 4) = (4 * sint len) mod 2 ^ 32"
  proof -
    have "uint (len * 4) = uint (word_of_int (sint len * 4) :: 32 word)"
      by (simp add: word_of_int_hom_syms del: of_int_mult)
    also have "\<dots> = (sint len * 4) mod 2 ^ 32"
      by (simp only: uint_word_of_int take_bit_eq_mod) simp
    finally show ?thesis by (simp add: mult.commute)
  qed
  moreover have "(4 * sint len) mod 2 ^ 32 = 4 * sint len" if "0 \<le> sint len" "sint len < 2 ^ 30"
    using that by simp
  ultimately show ?thesis
    by (simp add: siren_queue_audio_eq)
qed

text \<open>C9, amended, at 1024 floats: 4096 bytes.\<close>

theorem siren_queue_audio_bytes_witness:
  "(0::int) \<le> sint (1024 :: 32 word) \<and> sint (1024 :: 32 word) < 2 ^ 30 \<and>
   (\<exists>n. siren_queue_audio 1 [] 1024 = SDL_QueueAudio 1 [] n \<and> uint n = 4096)"
proof -
  have h: "(0::int) \<le> sint (1024 :: 32 word) \<and> sint (1024 :: 32 word) < 2 ^ 30" by simp
  from siren_queue_audio_bytes[of 1 "[]" 1024] h show ?thesis by auto
qed

text \<open>A signed 16-bit sample lies between \<open>- 32768\<close> and \<open>32767\<close>.\<close>

lemma sint16_bounds: "- 32768 \<le> sint (w :: 16 word) \<and> sint w < 32768"
  using sint_ge[of w] sint_lt[of w] by simp

text \<open>
  C3: the loader returns the empty array when \<open>SDL_LoadWAV\<close> fails and when the format is
  not mono, signed 16-bit, 44100 Hz; a result that is not empty comes from a load that
  succeeded with exactly that format.
\<close>

theorem siren_load_wav_empty:
  "(SDL_LoadWAV path = None \<longrightarrow> siren_load_wav SDL_LoadWAV alloc_ok path = []) \<and>
   (\<forall>spec sdl_buf. SDL_LoadWAV path = Some (spec, sdl_buf) \<and>
        (spec_freq spec \<noteq> 44100 \<or> spec_channels spec \<noteq> 1 \<or> spec_format spec \<noteq> AUDIO_S16LSB)
      \<longrightarrow> siren_load_wav SDL_LoadWAV alloc_ok path = []) \<and>
   (siren_load_wav SDL_LoadWAV alloc_ok path \<noteq> [] \<longrightarrow>
      (\<exists>spec sdl_buf. SDL_LoadWAV path = Some (spec, sdl_buf) \<and>
         spec_freq spec = 44100 \<and> spec_channels spec = 1 \<and> spec_format spec = AUDIO_S16LSB))"
  by (auto simp: siren_load_wav_def split: option.splits if_splits)

text \<open>C3 on a missing file, a stereo file and a mono file of one sample.\<close>

theorem siren_load_wav_empty_witness:
  "siren_load_wav
     (\<lambda>p. if p = ''kick.wav''
          then Some (\<lparr>spec_freq = 44100, spec_format = 0x8010, spec_channels = 1, spec_samples = 4096\<rparr>,
                     [0x00, 0x40])
          else if p = ''stereo.wav''
          then Some (\<lparr>spec_freq = 44100, spec_format = 0x8010, spec_channels = 2, spec_samples = 4096\<rparr>,
                     [0x00, 0x40, 0x00, 0x40])
          else None) True ''missing.wav'' = []
   \<and> siren_load_wav
     (\<lambda>p. if p = ''kick.wav''
          then Some (\<lparr>spec_freq = 44100, spec_format = 0x8010, spec_channels = 1, spec_samples = 4096\<rparr>,
                     [0x00, 0x40])
          else if p = ''stereo.wav''
          then Some (\<lparr>spec_freq = 44100, spec_format = 0x8010, spec_channels = 2, spec_samples = 4096\<rparr>,
                     [0x00, 0x40, 0x00, 0x40])
          else None) True ''stereo.wav'' = []
   \<and> siren_load_wav
     (\<lambda>p. if p = ''kick.wav''
          then Some (\<lparr>spec_freq = 44100, spec_format = 0x8010, spec_channels = 1, spec_samples = 4096\<rparr>,
                     [0x00, 0x40])
          else if p = ''stereo.wav''
          then Some (\<lparr>spec_freq = 44100, spec_format = 0x8010, spec_channels = 2, spec_samples = 4096\<rparr>,
                     [0x00, 0x40, 0x00, 0x40])
          else None) True ''kick.wav'' \<noteq> []"
proof -
  let ?fs = "\<lambda>p. if p = ''kick.wav''
          then Some (\<lparr>spec_freq = 44100, spec_format = 0x8010, spec_channels = 1, spec_samples = 4096\<rparr>,
                     [0x00, 0x40 :: 8 word])
          else if p = ''stereo.wav''
          then Some (\<lparr>spec_freq = 44100, spec_format = 0x8010, spec_channels = 2, spec_samples = 4096\<rparr>,
                     [0x00, 0x40, 0x00, 0x40])
          else None"
  have 1: "siren_load_wav ?fs True ''missing.wav'' = []"
    using siren_load_wav_empty[of ?fs "''missing.wav''" True] by simp
  have 2: "siren_load_wav ?fs True ''stereo.wav'' = []"
    using siren_load_wav_empty[of ?fs "''stereo.wav''" True] by simp
  have 3: "siren_load_wav ?fs True ''kick.wav'' \<noteq> []"
    by (simp add: siren_load_wav_def AUDIO_S16LSB_def)
  from 1 2 3 show ?thesis by blast
qed

text \<open>
  C4: for a file that loads with the supported format into \<open>L\<close> bytes (the allocation of the
  result succeeding), the loader returns \<open>L div 2\<close> floats, element \<open>i\<close> being the \<open>i\<close>-th
  signed 16-bit sample divided by 32768, a value in \<open>[-1, 1)\<close>.
\<close>

theorem siren_load_wav_samples:
  assumes "SDL_LoadWAV path = Some (spec, sdl_buf)"
    and "spec_freq spec = 44100" and "spec_channels spec = 1" and "spec_format spec = AUDIO_S16LSB"
    and "alloc_ok"
  shows "length (siren_load_wav SDL_LoadWAV alloc_ok path) = length sdl_buf div 2 \<and>
    (\<forall>i < length sdl_buf div 2.
       siren_load_wav SDL_LoadWAV alloc_ok path ! i = real_of_int (sint (Sint16_at sdl_buf i)) / 32768 \<and>
       - 1 \<le> siren_load_wav SDL_LoadWAV alloc_ok path ! i \<and>
       siren_load_wav SDL_LoadWAV alloc_ok path ! i < 1)"
proof -
  have r: "siren_load_wav SDL_LoadWAV alloc_ok path =
      map (\<lambda>i. real_of_int (sint (Sint16_at sdl_buf i)) / 32768) [0..<length sdl_buf div 2]"
    using assms by (simp add: siren_load_wav_def)
  have k: "- 1 \<le> real_of_int k / 32768 \<and> real_of_int k / 32768 < 1"
    if "- 32768 \<le> k \<and> k < 32768" for k :: int
    using that by simp
  have "- 1 \<le> real_of_int (sint w) / 32768 \<and> real_of_int (sint w) / 32768 < 1" for w :: "16 word"
    by (rule k) (rule sint16_bounds)
  then show ?thesis unfolding r by (simp del: of_int_sint)
qed

text \<open>C4 on five bytes: the samples \<open>- 32768\<close> and \<open>32767\<close>, the odd byte dropped.\<close>

theorem siren_load_wav_samples_witness:
  "length (siren_load_wav
     (\<lambda>p. if p = ''kick.wav''
          then Some (\<lparr>spec_freq = 44100, spec_format = 0x8010, spec_channels = 1, spec_samples = 4096\<rparr>,
                     [0x00, 0x80, 0xFF, 0x7F, 0x01])
          else None) True ''kick.wav'') = 2
   \<and> siren_load_wav
     (\<lambda>p. if p = ''kick.wav''
          then Some (\<lparr>spec_freq = 44100, spec_format = 0x8010, spec_channels = 1, spec_samples = 4096\<rparr>,
                     [0x00, 0x80, 0xFF, 0x7F, 0x01])
          else None) True ''kick.wav'' ! 0 = - 1
   \<and> siren_load_wav
     (\<lambda>p. if p = ''kick.wav''
          then Some (\<lparr>spec_freq = 44100, spec_format = 0x8010, spec_channels = 1, spec_samples = 4096\<rparr>,
                     [0x00, 0x80, 0xFF, 0x7F, 0x01])
          else None) True ''kick.wav'' ! 1 = 32767 / 32768"
proof -
  let ?spec = "\<lparr>spec_freq = 44100, spec_format = 0x8010, spec_channels = 1, spec_samples = 4096\<rparr>"
  let ?bytes = "[0x00, 0x80, 0xFF, 0x7F, 0x01] :: 8 word list"
  let ?fs = "\<lambda>p. if p = ''kick.wav'' then Some (?spec, ?bytes) else None"
  have s0: "sint (Sint16_at ?bytes 0) = - 32768"
    by (simp add: Sint16_at_def word_cat_eq)
  have s1: "sint (Sint16_at ?bytes 1) = 32767"
    by (simp add: Sint16_at_def word_cat_eq)
  have d: "length ?bytes div 2 = 2" by simp
  have "length (siren_load_wav ?fs True ''kick.wav'') = length ?bytes div 2 \<and>
    (\<forall>i < length ?bytes div 2.
       siren_load_wav ?fs True ''kick.wav'' ! i = real_of_int (sint (Sint16_at ?bytes i)) / 32768 \<and>
       - 1 \<le> siren_load_wav ?fs True ''kick.wav'' ! i \<and>
       siren_load_wav ?fs True ''kick.wav'' ! i < 1)"
    by (rule siren_load_wav_samples[of ?fs "''kick.wav''" ?spec ?bytes True])
       (simp_all add: AUDIO_S16LSB_def)
  then have l: "length (siren_load_wav ?fs True ''kick.wav'') = 2"
    and e: "\<And>i. i < 2 \<Longrightarrow>
       siren_load_wav ?fs True ''kick.wav'' ! i = real_of_int (sint (Sint16_at ?bytes i)) / 32768"
    unfolding d by blast+
  have "siren_load_wav ?fs True ''kick.wav'' ! 0 = real_of_int (sint (Sint16_at ?bytes 0)) / 32768"
    by (rule e) simp
  then have "siren_load_wav ?fs True ''kick.wav'' ! 0 = real_of_int (- 32768) / 32768"
    unfolding s0 .
  then have "siren_load_wav ?fs True ''kick.wav'' ! 0 = - 1"
    by simp
  moreover
  have "siren_load_wav ?fs True ''kick.wav'' ! 1 = real_of_int (sint (Sint16_at ?bytes 1)) / 32768"
    by (rule e) simp
  then have "siren_load_wav ?fs True ''kick.wav'' ! 1 = real_of_int 32767 / 32768"
    unfolding s1 .
  then have "siren_load_wav ?fs True ''kick.wav'' ! 1 = 32767 / 32768"
    by simp
  ultimately show ?thesis using l by blast
qed

section \<open>The runtime loop is its unrolled form\<close>

text \<open>On the buffer of \<open>main\<close> a fill at 440 Hz yields \<open>sine_buffer\<close> and \<open>next_phase\<close>.\<close>

lemma length_sine_buffer: "length (sine_buffer phase) = 1024"
  by (simp add: sine_buffer_def del: upt_Suc)

lemma fill_sine_440:
  "length buf = 1024 \<Longrightarrow> fill_sine buf 440 phase = Inr (sine_buffer phase, next_phase phase)"
  by (simp add: fill_sine_eq sine_buffer_def next_phase_def del: upt_Suc)

lemma queue_buf_size:
  "siren_queue_audio dev b (word_of_int buf_size) = SDL_QueueAudio dev b 4096"
  by (simp add: siren_queue_audio_eq buf_size_def buf_frames_def channels_def)

lemma high_water: "buf_size * 4 * 4 = 16384"
  by (simp add: buf_size_def buf_frames_def channels_def)

text \<open>
  The inner loop entered by the answer \<open>a\<close>: it never fails, and the calls it makes are
  the next rounds of \<open>rounds\<close>.
\<close>

lemma enqueue_loop_rounds:
  "length buf = 1024 \<Longrightarrow> c = (siren_queued_bytes a < 16384) \<Longrightarrow>
   (case enqueue_loop dev rest c phase buf of
      (t, Completed (rest', phase', buf')) \<Rightarrow>
        length buf' = 1024 \<and>
        rounds dev (a # rest) phase =
          SDL_GetQueuedAudioSize dev a # t @ SDL_Delay 1 # rounds dev rest' phase'
    | (t, Cut) \<Rightarrow> rounds dev (a # rest) phase = SDL_GetQueuedAudioSize dev a # t
    | (t, Failed e) \<Rightarrow> False)"
proof (induction dev rest c phase buf arbitrary: a rule: enqueue_loop.induct)
  case (1 dev answers c phase buf)
  show ?case
  proof (cases c)
    case False
    then have "enqueue_loop dev answers c phase buf = ([], Completed (answers, phase, buf))"
      by (subst enqueue_loop.simps) simp
    then show ?thesis using False "1.prems" by (simp add: rounds.simps)
  next
    case True
    have f: "fill_sine buf 440 phase = Inr (sine_buffer phase, next_phase phase)"
      using "1.prems"(1) by (rule fill_sine_440)
    show ?thesis
    proof (cases answers)
      case Nil
      then have "enqueue_loop dev answers c phase buf =
          ([SDL_QueueAudio dev (sine_buffer phase) 4096], Cut)"
        using True f by (subst enqueue_loop.simps) (simp add: queue_buf_size)
      then show ?thesis using True "1.prems" Nil by (simp add: rounds.simps)
    next
      case (Cons a' rest0)
      define c' where "c' = (siren_queued_bytes a' < 16384)"
      obtain t r where e: "enqueue_loop dev rest0 c' (next_phase phase) (sine_buffer phase) = (t, r)"
        by (cases "enqueue_loop dev rest0 c' (next_phase phase) (sine_buffer phase)") auto
      have c'': "(siren_queued_bytes a' < buf_size * 4 * 4) = c'"
        by (simp add: c'_def high_water)
      have ih: "case enqueue_loop dev rest0 c' (next_phase phase) (sine_buffer phase) of
          (t, Completed (rest', phase', buf')) \<Rightarrow>
            length buf' = 1024 \<and>
            rounds dev (a' # rest0) (next_phase phase) =
              SDL_GetQueuedAudioSize dev a' # t @ SDL_Delay 1 # rounds dev rest' phase'
        | (t, Cut) \<Rightarrow> rounds dev (a' # rest0) (next_phase phase) = SDL_GetQueuedAudioSize dev a' # t
        | (t, Failed e) \<Rightarrow> False"
        using "1.IH"[OF True f refl Cons length_sine_buffer, of a'] high_water
        by (simp add: c'_def)
      have eq: "enqueue_loop dev answers c phase buf =
          (SDL_QueueAudio dev (sine_buffer phase) 4096 # SDL_GetQueuedAudioSize dev a' # t, r)"
        using True f Cons e c'' by (subst enqueue_loop.simps) (simp add: queue_buf_size)
      have r0: "rounds dev (a # answers) phase =
          SDL_GetQueuedAudioSize dev a # SDL_QueueAudio dev (sine_buffer phase) 4096
            # rounds dev (a' # rest0) (next_phase phase)"
        using True "1.prems"(2) Cons by (simp add: rounds.simps(2)[of dev a])
      show ?thesis
        using ih unfolding eq e r0
        by (cases r) auto
    qed
  qed
qed

lemma main_loop_rounds:
  "length buf = 1024 \<Longrightarrow> main_loop dev answers phase buf = rounds dev answers phase"
proof (induction dev answers phase buf rule: main_loop.induct)
  case (1 dev phase buf)
  then show ?case by simp
next
  case (2 dev a rest phase buf)
  define c where "c = (siren_queued_bytes a < 16384)"
  have c': "(siren_queued_bytes a < buf_size * 4 * 4) = c"
    by (simp add: c_def high_water)
  obtain t r where e: "enqueue_loop dev rest c phase buf = (t, r)"
    by (cases "enqueue_loop dev rest c phase buf") auto
  have "case enqueue_loop dev rest c phase buf of
      (t, Completed (rest', phase', buf')) \<Rightarrow>
        length buf' = 1024 \<and>
        rounds dev (a # rest) phase =
          SDL_GetQueuedAudioSize dev a # t @ SDL_Delay 1 # rounds dev rest' phase'
    | (t, Cut) \<Rightarrow> rounds dev (a # rest) phase = SDL_GetQueuedAudioSize dev a # t
    | (t, Failed e) \<Rightarrow> False"
    by (rule enqueue_loop_rounds[OF "2.prems" c_def])
  note el = this[unfolded e]
  have m: "main_loop dev (a # rest) phase buf =
     (case (t, r) of
        (t, Completed (rest', phase', buf')) \<Rightarrow>
          SDL_GetQueuedAudioSize dev a # t @ SDL_Delay 1 # main_loop dev rest' phase' buf'
      | (t, Cut) \<Rightarrow> SDL_GetQueuedAudioSize dev a # t
      | (t, Failed e) \<Rightarrow> SDL_GetQueuedAudioSize dev a # t)"
    unfolding main_loop.simps(2) c' e ..
  show ?case
  proof (cases r)
    case (Completed st)
    obtain rest' phase' buf' where st: "st = (rest', phase', buf')"
      by (cases st) auto
    from el Completed st have l: "length buf' = 1024"
      and rr: "rounds dev (a # rest) phase =
          SDL_GetQueuedAudioSize dev a # t @ SDL_Delay 1 # rounds dev rest' phase'"
      by simp_all
    have e': "(t, r) = enqueue_loop dev rest (siren_queued_bytes a < buf_size * 4 * 4) phase buf"
      unfolding c' e ..
    have "main_loop dev rest' phase' buf' = rounds dev rest' phase'"
      by (rule "2.IH"[OF e' Completed _ refl l]) (simp add: st)
    then show ?thesis
      unfolding m rr Completed st by simp
  next
    case Cut
    with el show ?thesis unfolding m by simp
  next
    case (Failed x)
    with el show ?thesis by simp
  qed
qed

lemma main_rounds:
  "main dev mem answers =
     SDL_OpenAudioDevice \<lparr>spec_freq = 44100, spec_format = AUDIO_F32SYS,
       spec_channels = 2, spec_samples = 512\<rparr>
     # SDL_PauseAudioDevice dev 0 # rounds dev answers 0"
proof -
  have "length (Array_allocate_float buf_size mem) = 1024"
    by (simp add: Array_allocate_float_def buf_size_def buf_frames_def channels_def)
  then show ?thesis
    by (simp add: main_def main_loop_rounds siren_open_audio_def sample_rate_def
        channels_def buf_frames_def)
qed

section \<open>Properties of the rounds\<close>

text \<open>An answer below \<open>2 ^ 31\<close> keeps its value when it is cast to \<open>int\<close>.\<close>

lemma sint_below_sign_bit: "unat (a :: 32 word) < 2 ^ 31 \<Longrightarrow> sint a = int (unat a)"
proof -
  assume h: "unat a < 2 ^ 31"
  have n: "LENGTH(32) - Suc 0 = 31" by simp
  have lo: "- (2 ^ 31) \<le> uint a"
  proof -
    have "- (2 ^ 31) \<le> (0::int)" by simp
    also have "0 \<le> uint a" by (rule uint_ge_0)
    finally show ?thesis .
  qed
  have "int (unat a) < int (2 ^ 31)"
    using h by (simp only: of_nat_less_iff)
  then have hi: "uint a < 2 ^ 31" by simp
  have "sint a = signed_take_bit 31 (uint a)"
    using sint_uint[of a] unfolding n .
  also have "\<dots> = uint a"
    using lo hi by (rule signed_take_bit_int_eq_self)
  finally show ?thesis by simp
qed

lemma rounds_enqueued:
  "SDL_QueueAudio d b n \<in> set (rounds dev answers phase) \<Longrightarrow>
   d = dev \<and> n = 4096 \<and> (\<exists>p. b = sine_buffer p)"
  by (induction answers arbitrary: phase) (auto simp: rounds.simps split: if_splits)

lemma rounds_depth:
  "q < 20480 \<Longrightarrow> sink_consistent q (rounds dev answers phase) \<Longrightarrow>
   \<forall>l \<in> set (queued_at_delay q (rounds dev answers phase)). 16384 \<le> l \<and> l < 20480"
proof (induction answers arbitrary: q phase)
  case Nil
  then show ?case by simp
next
  case (Cons a rest)
  show ?case
  proof (cases "siren_queued_bytes a < 16384")
    case True
    then have r: "rounds dev (a # rest) phase =
        SDL_GetQueuedAudioSize dev a # SDL_QueueAudio dev (sine_buffer phase) 4096
          # rounds dev rest (next_phase phase)"
      by (simp add: rounds.simps)
    from Cons.prems have le: "unat a \<le> q"
      and c: "sink_consistent (unat a + 4096) (rounds dev rest (next_phase phase))"
      unfolding r by simp_all
    from le Cons.prems(1) have "unat a < 2 ^ 31" by simp
    then have s: "sint a = int (unat a)" by (rule sint_below_sign_bit)
    from True have "int (unat a) < 16384"
      unfolding siren_queued_bytes_def s .
    then have "unat a + 4096 < 20480" by linarith
    from Cons.IH[OF this c] show ?thesis unfolding r by simp
  next
    case False
    then have r: "rounds dev (a # rest) phase =
        SDL_GetQueuedAudioSize dev a # SDL_Delay 1 # rounds dev rest phase"
      by (simp add: rounds.simps)
    from Cons.prems have le: "unat a \<le> q"
      and c: "sink_consistent (unat a) (rounds dev rest phase)"
      unfolding r by simp_all
    from le Cons.prems(1) have u: "unat a < 20480" by simp
    then have "unat a < 2 ^ 31" by simp
    then have s: "sint a = int (unat a)" by (rule sint_below_sign_bit)
    from False have "\<not> int (unat a) < 16384"
      unfolding siren_queued_bytes_def s .
    then have "16384 \<le> unat a" by linarith
    with Cons.IH[OF u c] u show ?thesis unfolding r by simp
  qed
qed

lemma sine_buffer_frames:
  "i < 512 \<Longrightarrow> sine_buffer p ! (2 * i) = sin (p + real i * (2 * pi * 440 / 44100)) \<and>
     sine_buffer p ! (2 * i + 1) = sin (p + real i * (2 * pi * 440 / 44100))"
proof -
  assume i: "i < 512"
  then have "2 * i < 1024" "2 * i + 1 < 1024" "(2 * i) div 2 = i" "(2 * i + 1) div 2 = i"
    by simp_all
  then show ?thesis
    by (simp add: sine_buffer_def algebra_simps del: upt_Suc)
qed

lemma sine_buffer_range: "x \<in> set (sine_buffer p) \<Longrightarrow> - 1 \<le> x \<and> x \<le> 1"
  by (auto simp: sine_buffer_def simp del: upt_Suc)

section \<open>Claims on the runtime loop\<close>




text \<open>
  C6, as stated, fails: the device drains 2048 bytes of four enqueued buffers and answers
  14336, which is below the mark, so a fifth buffer is enqueued; when the loop goes to
  sleep the queue holds 18432 bytes, more than the high-water mark 16384.
\<close>

theorem main_overfills_queue:
  "sink_consistent 0 (main 1 (\<lambda>k. 0) [0, 4096, 8192, 12288, 14336, 18432]) \<and>
   queued_at_delay 0 (main 1 (\<lambda>k. 0) [0, 4096, 8192, 12288, 14336, 18432]) = [18432]"
  by (simp add: main_rounds rounds.simps siren_queued_bytes_def)

text \<open>
  C6, amended: with a device that starts empty and only drains, whenever the loop goes to
  sleep after its enqueue phase the queue holds at least the high-water mark 16384 bytes
  (so at least one buffer, 4096 bytes) and fewer than \<open>16384 + 4096 = 20480\<close> bytes.
\<close>

theorem main_queue_depth:
  assumes "sink_consistent 0 (main dev mem answers)"
  shows "\<forall>q \<in> set (queued_at_delay 0 (main dev mem answers)). 16384 \<le> q \<and> q < 20480"
proof -
  from assms have c: "sink_consistent 0 (rounds dev answers 0)"
    by (simp add: main_rounds)
  have "\<forall>q \<in> set (queued_at_delay 0 (rounds dev answers 0)). 16384 \<le> q \<and> q < 20480"
    by (rule rounds_depth[OF _ c]) simp
  then show ?thesis by (simp add: main_rounds)
qed

text \<open>C6, amended, on a device that drains one whole buffer during the first sleep.\<close>

theorem main_queue_depth_witness:
  "sink_consistent 0 (main 1 (\<lambda>k. 0) [0, 4096, 8192, 12288, 16384, 12288, 16384]) \<and>
   queued_at_delay 0 (main 1 (\<lambda>k. 0) [0, 4096, 8192, 12288, 16384, 12288, 16384]) = [16384, 16384] \<and>
   (16384 :: nat) \<le> 16384 \<and> (16384 :: nat) < 20480"
proof -
  have c: "sink_consistent 0 (main 1 (\<lambda>k. 0) [0, 4096, 8192, 12288, 16384, 12288, 16384])"
    by (simp add: main_rounds rounds.simps siren_queued_bytes_def)
  have l: "queued_at_delay 0 (main 1 (\<lambda>k. 0) [0, 4096, 8192, 12288, 16384, 12288, 16384]) = [16384, 16384]"
    by (simp add: main_rounds rounds.simps siren_queued_bytes_def)
  from main_queue_depth[OF c] c l show ?thesis by simp
qed

text \<open>
  C8: every buffer that \<open>main\<close> enqueues goes to the opened device with 4096 bytes, holds
  exactly \<open>BUF_SIZE = 1024\<close> floats, is interleaved (frame \<open>i\<close> fills the left slot \<open>2 * i\<close> and the
  right slot \<open>2 * i + 1\<close> with the same sine sample), and every sample lies in \<open>[-1, 1]\<close>.
\<close>

theorem main_enqueued_buffers:
  assumes "SDL_QueueAudio d b n \<in> set (main dev mem answers)"
  shows "d = dev \<and> n = 4096 \<and> length b = 1024 \<and>
    (\<exists>p. \<forall>i<512. b ! (2 * i) = sin (p + real i * (2 * pi * 440 / 44100)) \<and>
                  b ! (2 * i + 1) = sin (p + real i * (2 * pi * 440 / 44100))) \<and>
    (\<forall>x \<in> set b. - 1 \<le> x \<and> x \<le> 1)"
proof -
  from assms have "SDL_QueueAudio d b n \<in> set (rounds dev answers 0)"
    by (simp add: main_rounds)
  then obtain p where "d = dev" "n = 4096" and b: "b = sine_buffer p"
    using rounds_enqueued by blast
  then show ?thesis
    using sine_buffer_frames[of _ p] sine_buffer_range[of _ p] length_sine_buffer[of p]
    by blast
qed

text \<open>C8 on the first buffer, enqueued when the device answers 0.\<close>

theorem main_enqueued_buffers_witness:
  "SDL_QueueAudio 1 (sine_buffer 0) 4096 \<in> set (main 1 (\<lambda>k. 0) [0]) \<and>
   length (sine_buffer 0) = 1024 \<and> - 1 \<le> sine_buffer 0 ! 2 \<and> sine_buffer 0 ! 2 \<le> 1"
proof -
  have m: "SDL_QueueAudio 1 (sine_buffer 0) 4096 \<in> set (main 1 (\<lambda>k. 0) [0])"
    by (simp add: main_rounds rounds.simps siren_queued_bytes_def)
  from main_enqueued_buffers[OF m]
  have l: "length (sine_buffer 0) = 1024"
    and r: "\<forall>x \<in> set (sine_buffer 0). - 1 \<le> x \<and> x \<le> 1"
    by blast+
  from l have "sine_buffer 0 ! 2 \<in> set (sine_buffer 0)"
    by (intro nth_mem) simp
  with r l m show ?thesis by blast
qed

section \<open>Phase continuity\<close>

text \<open>The samples of \<open>n\<close> consecutive fills, by induction on \<open>n\<close>.\<close>

lemma sine_ticks_samples:
  "1024 \<le> length buf \<Longrightarrow>
   \<exists>out b p. sine_ticks n buf freq phase = Inr (out, b, p) \<and> length out = 1024 * n \<and>
     (\<forall>k < 512 * n. out ! (2 * k) = sin (phase + real k * (2 * pi * real_of_int freq / 44100)) \<and>
                    out ! (2 * k + 1) = sin (phase + real k * (2 * pi * real_of_int freq / 44100)))"
proof (induction n arbitrary: buf phase)
  case 0
  then show ?case by simp
next
  case (Suc n)
  define d where "d = 2 * pi * real_of_int freq / 44100"
  define F where "F = map (\<lambda>j. sin (phase + 2 * pi * (real_of_int freq / 44100) * real (j div 2))) [0..<1024]"
  define B where "B = F @ drop 1024 buf"
  define p1 where "p1 = Float_mod (phase + 2 * pi * (real_of_int freq / 44100) * 512) (2 * pi)"
  have lF: "length F = 1024" by (simp add: F_def del: upt_Suc)
  have f: "fill_sine buf freq phase = Inr (B, p1)"
    using Suc.prems by (simp add: fill_sine_eq B_def F_def p1_def del: upt_Suc)
  have lB: "1024 \<le> length B" using lF by (simp add: B_def)
  have tk: "take (nat buf_size) B = F"
    using lF by (simp add: B_def buf_size_def buf_frames_def channels_def)
  from Suc.IH[OF lB, of p1]
  obtain out b p where r: "sine_ticks n B freq p1 = Inr (out, b, p)"
    and lo: "length out = 1024 * n"
    and s: "\<And>k. k < 512 * n \<Longrightarrow> out ! (2 * k) = sin (p1 + real k * d) \<and>
                    out ! (2 * k + 1) = sin (p1 + real k * d)"
    unfolding d_def by blast
  have e: "sine_ticks (Suc n) buf freq phase = Inr (F @ out, b, p)"
    using f r tk by simp
  have per: "sin (p1 + y) = sin (phase + 512 * d + y)" for y
    unfolding p1_def d_def using sin_Float_mod[of "phase + 2 * pi * (real_of_int freq / 44100) * 512" y]
    by (simp add: algebra_simps)
  have "(F @ out) ! (2 * k) = sin (phase + real k * d) \<and>
        (F @ out) ! (2 * k + 1) = sin (phase + real k * d)" if k: "k < 512 * Suc n" for k
  proof (cases "k < 512")
    case True
    then have "2 * k < 1024" "2 * k + 1 < 1024" "(2 * k) div 2 = k" "(2 * k + 1) div 2 = k"
      by simp_all
    then show ?thesis
      using lF by (simp add: nth_append F_def d_def algebra_simps del: upt_Suc)
  next
    case False
    define k' where "k' = k - 512"
    have k': "k = k' + 512" "k' < 512 * n" using False k by (simp_all add: k'_def)
    have i: "2 * k - 1024 = 2 * k'" "2 * k + 1 - 1024 = 2 * k' + 1" "\<not> 2 * k < 1024" "\<not> 2 * k + 1 < 1024"
      using k' by simp_all
    have "sin (p1 + real k' * d) = sin (phase + real k * d)"
      unfolding per k'(1) by (simp add: algebra_simps)
    then show ?thesis
      using s[OF k'(2)] i lF by (simp add: nth_append del: upt_Suc)
  qed
  then show ?case
    using e lF lo unfolding d_def by simp
qed

text \<open>
  C7, as stated, fails: the claim sets no condition on the buffer, and on a buffer of
  \<open>BUF_FRAMES = 512\<close> floats already the first fill of the sequence aborts on the store at
  index 512, so there is no output to join.
\<close>

theorem sine_ticks_short_buffer_aborts:
  "sine_ticks 1 (replicate 512 0) 440 0 = Inl AssertionFailed"
  by (simp add: fill_sine_eq)

text \<open>
  C7, amended: for every frequency, every initial phase and every buffer of at least
  \<open>BUF_SIZE = 1024\<close> floats, over exact reals, the concatenated output of any number of
  consecutive fills, each receiving the phase the previous one returned, holds
  \<open>sin (phase + k * \<Delta>)\<close> at frame \<open>k\<close> (the indices \<open>2 * k\<close> and \<open>2 * k + 1\<close>), with
  \<open>\<Delta> = 2 * pi * freq / 44100\<close>; two consecutive frames, also across a boundary between two
  fills, differ by at most \<open>\<bar>\<Delta>\<bar>\<close>.
\<close>

theorem sine_ticks_continuous:
  assumes "1024 \<le> length buf"
  shows "\<exists>out b p. sine_ticks n buf freq phase = Inr (out, b, p) \<and> length out = 1024 * n \<and>
     (\<forall>k < 512 * n. out ! (2 * k) = sin (phase + real k * (2 * pi * real_of_int freq / 44100)) \<and>
                    out ! (2 * k + 1) = sin (phase + real k * (2 * pi * real_of_int freq / 44100))) \<and>
     (\<forall>k. k + 1 < 512 * n \<longrightarrow>
          \<bar>out ! (2 * (k + 1)) - out ! (2 * k)\<bar> \<le> \<bar>2 * pi * real_of_int freq / 44100\<bar>)"
proof -
  define d where "d = 2 * pi * real_of_int freq / 44100"
  from sine_ticks_samples[OF assms, of n freq phase]
  obtain out b p where r: "sine_ticks n buf freq phase = Inr (out, b, p)"
    and lo: "length out = 1024 * n"
    and s: "\<And>k. k < 512 * n \<Longrightarrow> out ! (2 * k) = sin (phase + real k * d) \<and>
                    out ! (2 * k + 1) = sin (phase + real k * d)"
    unfolding d_def by blast
  have "\<bar>out ! (2 * (k + 1)) - out ! (2 * k)\<bar> \<le> \<bar>d\<bar>" if k: "k + 1 < 512 * n" for k
  proof -
    have "out ! (2 * (k + 1)) = sin (phase + real k * d + d)"
      using s[OF k] by (simp add: algebra_simps)
    moreover have "out ! (2 * k) = sin (phase + real k * d)"
      using s[of k] k by simp
    ultimately show ?thesis
      using sin_step_bound[of "phase + real k * d" d] by simp
  qed
  with r lo s show ?thesis unfolding d_def by blast
qed

text \<open>C7, amended, at 440 Hz across the boundary between the first and the second fill.\<close>

theorem sine_ticks_continuous_witness:
  "1024 \<le> length (replicate 1024 (0::real)) \<and>
   (\<exists>out b p. sine_ticks 2 (replicate 1024 0) 440 0 = Inr (out, b, p) \<and> length out = 2048 \<and>
      out ! 1022 = sin (511 * (2 * pi * 440 / 44100)) \<and>
      out ! 1024 = sin (512 * (2 * pi * 440 / 44100)) \<and>
      \<bar>out ! 1024 - out ! 1022\<bar> \<le> \<bar>2 * pi * 440 / 44100\<bar>)"
proof -
  have h: "1024 \<le> length (replicate 1024 (0::real))" by simp
  from sine_ticks_continuous[OF h, of 2 440 0]
  obtain out b p where r: "sine_ticks 2 (replicate 1024 0) 440 0 = Inr (out, b, p)"
    and lo: "length out = 1024 * 2"
    and s: "\<And>k. k < 512 * 2 \<Longrightarrow> out ! (2 * k) = sin (0 + real k * (2 * pi * real_of_int 440 / 44100))"
    and j: "\<And>k. k + 1 < 512 * 2 \<Longrightarrow>
          \<bar>out ! (2 * (k + 1)) - out ! (2 * k)\<bar> \<le> \<bar>2 * pi * real_of_int 440 / 44100\<bar>"
    by blast
  have "out ! 1022 = sin (511 * (2 * pi * 440 / 44100))" using s[of 511] by simp
  moreover have "out ! 1024 = sin (512 * (2 * pi * 440 / 44100))" using s[of 512] by simp
  moreover have "\<bar>out ! 1024 - out ! 1022\<bar> \<le> \<bar>2 * pi * 440 / 44100\<bar>" using j[of 511] by simp
  ultimately show ?thesis using r lo h by simp
qed

end
